theory Spec2Isabelle
  imports Main
begin

section \<open>The CQL service of src/yb/cqlserver/cql_service.cc\<close>

text \<open>
  The service owns a pool of CQL processors (\<open>processors_\<close>, a vector of unique pointers).
  \<open>GetProcessor\<close> hands out a processor that is not in use, creating one when all are busy;
  \<open>Handle\<close> takes one inbound call through acquire, process, respond, release, and reports
  three latency samples.

  A \<open>CQLProcessor*\<close> is modelled as the index of the processor in \<open>processors_\<close>: the
  vector stores pointers, elements are only ever appended, so the object an index denotes
  never changes. Record fields drop the trailing underscore of the member names
  (\<open>processors\<close> is \<open>processors_\<close>).
\<close>

subsection \<open>Data\<close>

datatype fault =
    CheckFailed   \<comment> \<open>a failed \<open>CHECK\<close> / \<open>CHECK_NOTNULL\<close>: the process aborts\<close>
  | LengthError   \<comment> \<open>\<open>std::length_error\<close> thrown by \<open>vector::reserve\<close>\<close>
  | IntOverflow   \<comment> \<open>signed \<open>int\<close> arithmetic leaves the range of \<open>int\<close> (undefined behaviour)\<close>

text \<open>
  Modelled from the spec: the class \<open>CQLProcessor\<close> (cql_processor.h) is not among the
  sources. The spec gives it a busy/idle flag, idle when the processor is created, which
  \<open>is_used()\<close> reads, \<open>used()\<close> sets and \<open>unused()\<close> clears; its execution context is opaque.
\<close>

record CQLProcessor =
  busy :: bool

definition new_CQLProcessor :: CQLProcessor where
  "new_CQLProcessor = \<lparr>busy = False\<rparr>"

definition is_used :: "CQLProcessor \<Rightarrow> bool" where
  "is_used p = busy p"

definition used :: "CQLProcessor \<Rightarrow> CQLProcessor" where
  "used p = p\<lparr>busy := True\<rparr>"

definition unused :: "CQLProcessor \<Rightarrow> CQLProcessor" where
  "unused p = p\<lparr>busy := False\<rparr>"

text \<open>
  Modelled from the spec: \<open>CQLResponse\<close> and \<open>CQLInboundCall\<close> are declared outside the
  sources. A response is a result payload or an error payload, both well-formed; a call
  carries its serialized request.
\<close>

datatype CQLResponse = ResultResponse string | ErrorResponse string

record CQLInboundCall =
  serialized_request :: string

text \<open>
  Modelled from the spec: \<open>MonoTime\<close> (yb/util/monotime.h) is not among the sources. A
  timestamp is a reading of the monotonic clock in microseconds, and
  \<open>a.GetDeltaSince(b).ToMicroseconds()\<close> is the difference of two readings.
\<close>

type_synonym MonoTime = int

definition GetDeltaSince :: "MonoTime \<Rightarrow> MonoTime \<Rightarrow> int" where
  "GetDeltaSince t rhs = t - rhs"

definition ToMicroseconds :: "int \<Rightarrow> int" where
  "ToMicroseconds delta = delta"

datatype metric =
    time_to_get_cql_processor
  | time_to_process_request
  | time_to_queue_cql_response

text \<open>
  Every call the service makes on shared or external objects is recorded, in program order,
  in a trace: the mutex operations of the \<open>lock_guard\<close>, the accesses to \<open>processors_\<close>
  and to the processors' flags, the processing of the request, the two steps of
  \<open>SendResponse\<close>, and the histogram increments.
\<close>

datatype event =
    Lock                         \<comment> \<open>\<open>lock_guard\<close> constructor on \<open>process_mutex_\<close>\<close>
  | Unlock                       \<comment> \<open>\<open>lock_guard\<close> destructor\<close>
  | IsUsed nat                   \<comment> \<open>\<open>processor->is_used()\<close>\<close>
  | Size                         \<comment> \<open>\<open>processors_.size()\<close>\<close>
  | Reserve nat                  \<comment> \<open>\<open>processors_.reserve(n)\<close>\<close>
  | EmplaceBack                  \<comment> \<open>\<open>processors_.emplace_back(p)\<close>\<close>
  | Used nat                     \<comment> \<open>\<open>processor->used()\<close>\<close>
  | Unused nat                   \<comment> \<open>\<open>processor->unused()\<close>\<close>
  | ProcessCall nat string       \<comment> \<open>\<open>processor->ProcessCall(request, &response)\<close>\<close>
  | Serialize CQLResponse        \<comment> \<open>\<open>response->Serialize(&buf)\<close>\<close>
  | RespondSuccess               \<comment> \<open>\<open>context->RespondSuccess()\<close>\<close>
  | Increment metric int         \<comment> \<open>\<open>histogram->Increment(v)\<close>\<close>

record CQLServiceImpl =
  processors :: "CQLProcessor list"
  capacity :: nat     \<comment> \<open>\<open>processors_.capacity()\<close>\<close>
  trace :: "event list"

definition emit :: "event list \<Rightarrow> CQLServiceImpl \<Rightarrow> CQLServiceImpl" where
  "emit es s = s\<lparr>trace := trace s @ es\<rparr>"

subsection \<open>The vector operations used on \<open>processors_\<close>\<close>

text \<open>
  \<open>reserve\<close> takes a \<open>size_t\<close>; both callers pass an \<open>int\<close>. A negative \<open>int\<close> converts
  to a value above \<open>max_size()\<close> and \<open>reserve\<close> throws; a non-negative one is below
  \<open>max_size()\<close> on the 64-bit targets of the server. \<open>reserve\<close> never changes the size,
  and raises the capacity to its argument when the capacity is smaller.
\<close>

definition reserve :: "int \<Rightarrow> CQLServiceImpl \<Rightarrow> fault + CQLServiceImpl" where
  "reserve n s =
     (if n < 0 then Inl LengthError
      else Inr (emit [Reserve (nat n)]
             (if capacity s < nat n then s\<lparr>capacity := nat n\<rparr> else s)))"

text \<open>
  \<open>emplace_back\<close> appends one element; when the storage is full it reallocates, doubling
  the capacity (at least one slot).
\<close>

definition emplace_back :: "CQLProcessor \<Rightarrow> CQLServiceImpl \<Rightarrow> CQLServiceImpl" where
  "emplace_back p s =
     emit [EmplaceBack]
       (s\<lparr>processors := processors s @ [p],
          capacity :=
            (if length (processors s) < capacity s then capacity s
             else length (processors s) + max (length (processors s)) 1)\<rparr>)"

definition set_used :: "nat \<Rightarrow> CQLServiceImpl \<Rightarrow> CQLServiceImpl" where
  "set_used h s =
     emit [Used h] (s\<lparr>processors := (processors s)[h := used (processors s ! h)]\<rparr>)"

definition set_unused :: "nat \<Rightarrow> CQLServiceImpl \<Rightarrow> CQLServiceImpl" where
  "set_unused h s =
     emit [Unused h] (s\<lparr>processors := (processors s)[h := unused (processors s ! h)]\<rparr>)"

subsection \<open>The constructor\<close>

text \<open>
  The constructor reserves room for \<open>FLAGS_cql_service_num_threads\<close> processors and then
  runs a range-for over \<open>processors_\<close>, resetting every element to a new processor. The
  set-up of the metrics and of the client, which comes first, does not touch the pool and is
  left out.
\<close>

definition CQLServiceImpl_new :: "int \<Rightarrow> fault + CQLServiceImpl" where
  "CQLServiceImpl_new FLAGS_cql_service_num_threads =
     (case reserve FLAGS_cql_service_num_threads
             \<lparr>processors = [], capacity = 0, trace = []\<rparr> of
        Inl e \<Rightarrow> Inl e
      | Inr s \<Rightarrow> Inr (s\<lparr>processors := map (\<lambda>processor. new_CQLProcessor) (processors s)\<rparr>))"

subsection \<open>GetProcessor\<close>

definition INT_MAX :: int where
  "INT_MAX = 2147483647"

text \<open>
  The range-for of \<open>GetProcessor\<close>: \<open>i\<close> is the position of the next element,
  \<open>cql_processor\<close> the candidate found so far (\<open>None\<close> is \<open>nullptr\<close>). The loop has no
  \<open>break\<close>.
\<close>

fun scan :: "CQLProcessor list \<Rightarrow> nat \<Rightarrow> nat option \<Rightarrow> nat option" where
  "scan [] i cql_processor = cql_processor"
| "scan (processor # rest) i cql_processor =
     scan rest (Suc i) (if \<not> is_used processor then Some i else cql_processor)"

text \<open>
  The \<open>lock_guard\<close> is taken first and lives to the end of the body. \<open>size\<close> is an
  \<open>int\<close>; \<open>size * 2\<close> and \<open>size + 10\<close> are computed in \<open>int\<close>, and the model stops
  with \<open>IntOverflow\<close> where one of them leaves the range, that is from \<open>2 ^ 30\<close>
  processors on. The result of \<open>std::max<int>\<close> is never negative, so its conversion to
  \<open>size_t\<close> for \<open>reserve\<close> keeps the value.
\<close>

definition GetProcessor :: "CQLServiceImpl \<Rightarrow> fault + (CQLServiceImpl \<times> nat)" where
  "GetProcessor s0 =
     (let s1 = emit [Lock] s0;
          cql_processor = scan (processors s1) 0 None;
          s2 = emit (map IsUsed [0..<length (processors s1)]) s1
      in case cql_processor of
           Some h \<Rightarrow> Inr (emit [Unlock] (set_used h s2), h)
         | None \<Rightarrow>
            (let size' = int (length (processors s2));
                 s3 = emit [Size] s2
             in if INT_MAX < size' * 2 \<or> INT_MAX < size' + 10 then Inl IntOverflow
                else case reserve (max (size' * 2) (size' + 10)) s3 of
                       Inl e \<Rightarrow> Inl e
                     | Inr s4 \<Rightarrow>
                        (let h = length (processors s4);
                             s5 = emplace_back new_CQLProcessor s4
                         in Inr (emit [Unlock] (set_used h s5), h))))"

subsection \<open>SendResponse and Handle\<close>

definition SendResponse :: "CQLServiceImpl \<Rightarrow> CQLResponse option \<Rightarrow> fault + CQLServiceImpl" where
  "SendResponse s response =
     (case response of
        None \<Rightarrow> Inl CheckFailed
      | Some r \<Rightarrow> Inr (emit [Serialize r, RespondSuccess] s))"

text \<open>
  \<open>Handle\<close> takes the processors' \<open>ProcessCall\<close> as a parameter (it is outside the sources):
  given the processor and the serialized request it yields the response pointer, \<open>None\<close>
  when it leaves the pointer null. The four readings of \<open>MonoTime::Now\<close> are passed in the
  order in which \<open>Handle\<close> takes them. \<open>GetProcessor\<close> never returns \<open>nullptr\<close>, so the
  \<open>CHECK\<close> on its result has no branch; the \<open>DVLOG\<close> lines are left out. \<open>Handle\<close> is
  \<open>void\<close>: all it gives back is the changed service.
\<close>

definition Handle ::
  "(nat \<Rightarrow> string \<Rightarrow> CQLResponse option) \<Rightarrow> MonoTime \<times> MonoTime \<times> MonoTime \<times> MonoTime \<Rightarrow>
   CQLServiceImpl \<Rightarrow> CQLInboundCall option \<Rightarrow> fault + CQLServiceImpl" where
  "Handle process_call now s inbound_call =
     (case inbound_call of
        None \<Rightarrow> Inl CheckFailed
      | Some cql_call \<Rightarrow>
         (case now of (start, got_processor, process_done, response_done) \<Rightarrow>
            (case GetProcessor s of
               Inl e \<Rightarrow> Inl e
             | Inr (s1, processor) \<Rightarrow>
                (let s2 = emit [Increment time_to_get_cql_processor
                                  (ToMicroseconds (GetDeltaSince got_processor start))] s1;
                     response = process_call processor (serialized_request cql_call);
                     s3 = emit [ProcessCall processor (serialized_request cql_call)] s2
                 in case SendResponse s3 response of
                      Inl e \<Rightarrow> Inl e
                    | Inr s4 \<Rightarrow>
                       (let s5 = set_unused processor s4;
                            s6 = emit [Increment time_to_process_request
                                         (ToMicroseconds (GetDeltaSince response_done start))] s5;
                            s7 = emit [Increment time_to_queue_cql_response
                                         (ToMicroseconds (GetDeltaSince response_done process_done))] s6
                        in Inr s7)))))"

subsection \<open>Sequences of operations\<close>

text \<open>
  Callers run \<open>Handle\<close> side by side. A caller that has come back from \<open>GetProcessor\<close>
  and has not yet called \<open>unused()\<close> holds its processor; \<open>in_flight\<close> lists the
  processors so held, one entry per caller. An interleaving is a sequence of three kinds of
  steps: a caller acquires (\<open>Acquire\<close>), a caller releases the processor it holds
  (\<open>Release\<close>), or a whole \<open>Handle\<close> runs with no other step in between
  (\<open>HandleCall\<close>). The only \<open>unused()\<close> in the source is the one of \<open>Handle\<close>, on
  the processor that \<open>Handle\<close> acquired, so a \<open>Release\<close> of a processor nobody holds is
  no step; a step on which the code faults ends the sequence as well.
\<close>

record handlers =
  service :: CQLServiceImpl
  in_flight :: "nat list"

datatype op =
    Acquire
  | Release nat
  | HandleCall "CQLInboundCall option" "MonoTime \<times> MonoTime \<times> MonoTime \<times> MonoTime"

fun step :: "(nat \<Rightarrow> string \<Rightarrow> CQLResponse option) \<Rightarrow> handlers \<Rightarrow> op \<Rightarrow> handlers option" where
  "step process_call st Acquire =
     (case GetProcessor (service st) of
        Inl e \<Rightarrow> None
      | Inr (s', h) \<Rightarrow> Some \<lparr>service = s', in_flight = h # in_flight st\<rparr>)"
| "step process_call st (Release h) =
     (if h \<in> set (in_flight st)
      then Some \<lparr>service = set_unused h (service st), in_flight = remove1 h (in_flight st)\<rparr>
      else None)"
| "step process_call st (HandleCall inbound_call now) =
     (case Handle process_call now (service st) inbound_call of
        Inl e \<Rightarrow> None
      | Inr s' \<Rightarrow> Some \<lparr>service = s', in_flight = in_flight st\<rparr>)"

fun run :: "(nat \<Rightarrow> string \<Rightarrow> CQLResponse option) \<Rightarrow> handlers \<Rightarrow> op list \<Rightarrow> handlers option" where
  "run process_call st [] = Some st"
| "run process_call st (x # xs) =
     (case step process_call st x of
        None \<Rightarrow> None
      | Some st' \<Rightarrow> run process_call st' xs)"

text \<open>
  Mutual exclusion: no processor is held twice, and every held processor is in the pool and
  marked used.
\<close>

definition exclusive :: "handlers \<Rightarrow> bool" where
  "exclusive st \<longleftrightarrow>
     distinct (in_flight st) \<and>
     (\<forall>h \<in> set (in_flight st).
        h < length (processors (service st)) \<and> is_used (processors (service st) ! h))"

definition busy_count :: "CQLProcessor list \<Rightarrow> nat" where
  "busy_count ps = length (filter is_used ps)"

subsection \<open>Reading a trace\<close>

text \<open>The events an operation appended, given the service before and after it.\<close>

definition new_events :: "CQLServiceImpl \<Rightarrow> CQLServiceImpl \<Rightarrow> event list" where
  "new_events s s' = drop (length (trace s)) (trace s')"

fun responses :: "event list \<Rightarrow> CQLResponse list" where
  "responses [] = []"
| "responses (Serialize r # es) = r # responses es"
| "responses (e # es) = responses es"

fun releases :: "event list \<Rightarrow> nat list" where
  "releases [] = []"
| "releases (Unused h # es) = h # releases es"
| "releases (e # es) = releases es"

fun samples :: "metric \<Rightarrow> event list \<Rightarrow> int list" where
  "samples m [] = []"
| "samples m (Increment m' v # es) = (if m' = m then v # samples m es else samples m es)"
| "samples m (e # es) = samples m es"

text \<open>\<open>a\<close> occurs in the trace before the first \<open>b\<close>.\<close>

definition occurs_before :: "event \<Rightarrow> event \<Rightarrow> event list \<Rightarrow> bool" where
  "occurs_before a b es \<longleftrightarrow> a \<in> set (takeWhile (\<lambda>e. e \<noteq> b) es)"

text \<open>
  The accesses to the shared pool state: \<open>processors_\<close> and the processors' flags.
  \<open>guarded held es\<close> follows the mutex through the trace, starting with the mutex held or
  not as \<open>held\<close> says, and holds when every such access happens while it is held.
\<close>

fun shared_access :: "event \<Rightarrow> bool" where
  "shared_access (IsUsed i) = True"
| "shared_access Size = True"
| "shared_access (Reserve n) = True"
| "shared_access EmplaceBack = True"
| "shared_access (Used h) = True"
| "shared_access (Unused h) = True"
| "shared_access e = False"

fun guarded :: "bool \<Rightarrow> event list \<Rightarrow> bool" where
  "guarded held [] = True"
| "guarded held (Lock # es) = guarded True es"
| "guarded held (Unlock # es) = guarded False es"
| "guarded held (e # es) = ((shared_access e \<longrightarrow> held) \<and> guarded held es)"


section \<open>Basic facts\<close>

subsection \<open>What the primitive operations change\<close>

lemma processors_emit [simp]: "processors (emit es s) = processors s"
  by (simp add: emit_def)

lemma capacity_emit [simp]: "capacity (emit es s) = capacity s"
  by (simp add: emit_def)

lemma trace_emit [simp]: "trace (emit es s) = trace s @ es"
  by (simp add: emit_def)

lemma processors_set_used [simp]:
  "processors (set_used h s) = (processors s)[h := used (processors s ! h)]"
  by (simp add: set_used_def)

lemma capacity_set_used [simp]: "capacity (set_used h s) = capacity s"
  by (simp add: set_used_def)

lemma trace_set_used [simp]: "trace (set_used h s) = trace s @ [Used h]"
  by (simp add: set_used_def)

lemma processors_set_unused [simp]:
  "processors (set_unused h s) = (processors s)[h := unused (processors s ! h)]"
  by (simp add: set_unused_def)

lemma capacity_set_unused [simp]: "capacity (set_unused h s) = capacity s"
  by (simp add: set_unused_def)

lemma trace_set_unused [simp]: "trace (set_unused h s) = trace s @ [Unused h]"
  by (simp add: set_unused_def)

lemma processors_emplace_back [simp]: "processors (emplace_back p s) = processors s @ [p]"
  by (simp add: emplace_back_def)

lemma trace_emplace_back [simp]: "trace (emplace_back p s) = trace s @ [EmplaceBack]"
  by (simp add: emplace_back_def)

lemma capacity_emplace_back_ge: "capacity s \<le> capacity (emplace_back p s)"
  by (simp add: emplace_back_def)

lemma reserve_nonneg:
  "0 \<le> n \<Longrightarrow> \<exists>s'. reserve n s = Inr s' \<and> processors s' = processors s \<and>
     capacity s' = max (capacity s) (nat n) \<and> trace s' = trace s @ [Reserve (nat n)]"
  by (simp add: reserve_def)

lemma is_used_simps [simp]:
  "is_used (used p)" "\<not> is_used (unused p)" "\<not> is_used new_CQLProcessor"
  by (simp_all add: is_used_def used_def unused_def new_CQLProcessor_def)

lemma unused_used_idle: "\<not> is_used p \<Longrightarrow> unused (used p) = p"
  by (simp add: is_used_def used_def unused_def)

subsection \<open>The scan\<close>

lemma scan_None: "scan ps i acc = None \<longleftrightarrow> acc = None \<and> (\<forall>p\<in>set ps. is_used p)"
  by (induction ps arbitrary: i acc) auto

lemma scan_Some:
  "scan ps i acc = Some h \<Longrightarrow>
     (acc = Some h \<and> (\<forall>p\<in>set ps. is_used p)) \<or>
     (i \<le> h \<and> h < i + length ps \<and> \<not> is_used (ps ! (h - i)) \<and>
      (\<forall>j. h - i < j \<and> j < length ps \<longrightarrow> is_used (ps ! j)))"
proof (induction ps arbitrary: i acc)
  case Nil
  then show ?case by simp
next
  case (Cons p ps)
  from Cons.prems have
    step: "scan ps (Suc i) (if \<not> is_used p then Some i else acc) = Some h" by simp
  from Cons.IH [OF step] show ?case
  proof
    assume a: "(if \<not> is_used p then Some i else acc) = Some h \<and> (\<forall>p\<in>set ps. is_used p)"
    show ?thesis
    proof (cases "is_used p")
      case True
      with a show ?thesis by simp
    next
      case False
      with a have "h = i" by simp
      with a False show ?thesis by (auto simp: nth_Cons split: nat.splits)
    qed
  next
    assume b: "Suc i \<le> h \<and> h < Suc i + length ps \<and> \<not> is_used (ps ! (h - Suc i)) \<and>
      (\<forall>j. h - Suc i < j \<and> j < length ps \<longrightarrow> is_used (ps ! j))"
    then have "h - i = Suc (h - Suc i)" by arith
    with b show ?thesis
      by (auto simp: nth_Cons split: nat.splits) 
  qed
qed

lemma scan_last_idle:
  assumes "scan ps 0 None = Some h"
  shows "h < length ps" "\<not> is_used (ps ! h)" "\<And>j. h < j \<Longrightarrow> j < length ps \<Longrightarrow> is_used (ps ! j)"
  using scan_Some [OF assms] by auto

subsection \<open>The two outcomes of GetProcessor\<close>

lemma GetProcessor_reuse:
  assumes "scan (processors s) 0 None = Some h"
  shows "\<exists>s'. GetProcessor s = Inr (s', h) \<and>
           processors s' = (processors s)[h := used (processors s ! h)] \<and>
           capacity s' = capacity s \<and>
           trace s' = trace s @ Lock # map IsUsed [0..<length (processors s)] @ [Used h, Unlock]"
  using assms by (simp add: GetProcessor_def Let_def)

lemma GetProcessor_grow:
  assumes "scan (processors s) 0 None = None" and "length (processors s) < 2 ^ 30"
  shows "\<exists>s'. GetProcessor s = Inr (s', length (processors s)) \<and>
           processors s' = processors s @ [used new_CQLProcessor] \<and>
           capacity s' = max (capacity s)
                           (max (length (processors s) * 2) (length (processors s) + 10)) \<and>
           trace s' = trace s @ Lock # map IsUsed [0..<length (processors s)] @
                        [Size, Reserve (max (length (processors s) * 2) (length (processors s) + 10)),
                         EmplaceBack, Used (length (processors s)), Unlock]"
proof -
  let ?n = "length (processors s)"
  let ?s2 = "emit (map IsUsed [0..<?n]) (emit [Lock] s)"
  let ?arg = "max (int ?n * 2) (int ?n + 10)"
  have rng: "\<not> (INT_MAX < int ?n * 2 \<or> INT_MAX < int ?n + 10)"
    using assms(2) by (simp add: INT_MAX_def)
  have arg: "nat ?arg = max (?n * 2) (?n + 10)" by (auto simp: max_def nat_add_distrib nat_mult_distrib)
  have "0 \<le> ?arg" by simp
  from reserve_nonneg [OF this, of "emit [Size] ?s2"] obtain s4 where
    s4: "reserve ?arg (emit [Size] ?s2) = Inr s4" "processors s4 = processors s"
        "capacity s4 = max (capacity s) (nat ?arg)"
        "trace s4 = trace s @ Lock # map IsUsed [0..<?n] @ [Size, Reserve (nat ?arg)]"
    by auto
  have "?n < max (?n * 2) (?n + 10)" by arith
  then have lt: "length (processors s4) < capacity s4"
    unfolding s4(2,3) arg by arith
  have cap: "capacity (emplace_back new_CQLProcessor s4) = capacity s4"
    using lt by (simp add: emplace_back_def)
  have "GetProcessor s =
          Inr (emit [Unlock] (set_used ?n (emplace_back new_CQLProcessor s4)), ?n)"
    using assms(1) rng s4(1,2) by (simp add: GetProcessor_def Let_def)
  then show ?thesis
    using s4(2,3,4) cap arg by (simp add: nth_append)
qed

lemma GetProcessor_cases:
  assumes "GetProcessor s = Inr (s', h)"
  shows "(scan (processors s) 0 None = Some h \<and>
          processors s' = (processors s)[h := used (processors s ! h)] \<and>
          capacity s' = capacity s) \<or>
         (scan (processors s) 0 None = None \<and> h = length (processors s) \<and>
          processors s' = processors s @ [used new_CQLProcessor] \<and>
          max (length (processors s) * 2) (length (processors s) + 10) \<le> capacity s')"
proof (cases "scan (processors s) 0 None")
  case (Some k)
  from GetProcessor_reuse [OF Some] assms Some show ?thesis by auto
next
  case None
  show ?thesis
  proof (cases "length (processors s) < 2 ^ 30")
    case True
    from GetProcessor_grow [OF None True] assms None show ?thesis by auto
  next
    case False
    then have "INT_MAX < int (length (processors s)) * 2" by (simp add: INT_MAX_def)
    with None assms show ?thesis by (simp add: GetProcessor_def Let_def)
  qed
qed

section \<open>The claims\<close>

subsection \<open>The pool after construction\<close>

lemma CQLServiceImpl_new_empty:
  "CQLServiceImpl_new n = Inr s \<Longrightarrow> processors s = []"
  by (auto simp: CQLServiceImpl_new_def reserve_def split: if_splits)

text \<open>
  C5 says that after construction with the flag set to \<open>N\<close> the pool holds \<open>N\<close> idle
  processors, so that with \<open>N = 3\<close> two calls in sequence create no processor and the
  pool stays at three. The constructor calls \<open>reserve\<close>, which leaves the vector empty, and
  its loop over the elements runs zero times: with the flag at 3 the pool holds no processor,
  the first of two calls creates one, and the pool ends with one processor.
\<close>

theorem constructor_creates_no_processor:
  "CQLServiceImpl_new 3 = Inr \<lparr>processors = [], capacity = 3, trace = [Reserve 3]\<rparr> \<and>
   map_option (\<lambda>st. processors (service st))
     (run (\<lambda>h request. Some (ResultResponse request))
        \<lparr>service = \<lparr>processors = [], capacity = 3, trace = [Reserve 3]\<rparr>, in_flight = []\<rparr>
        [HandleCall (Some \<lparr>serialized_request = ''a''\<rparr>) (0, 1, 2, 3),
         HandleCall (Some \<lparr>serialized_request = ''b''\<rparr>) (4, 5, 6, 7)])
     = Some [\<lparr>busy = False\<rparr>]"
  by (simp add: CQLServiceImpl_new_def reserve_def emit_def Handle_def GetProcessor_def
      SendResponse_def set_used_def set_unused_def emplace_back_def INT_MAX_def
      new_CQLProcessor_def used_def unused_def is_used_def Let_def)

subsection \<open>Which idle processor is selected\<close>

lemma scan_idle_Some:
  assumes "\<exists>p\<in>set ps. \<not> is_used p"
  shows "\<exists>h. scan ps 0 None = Some h"
  using assms scan_None [of ps 0 None] by (cases "scan ps 0 None") auto

text \<open>
  C10: in every pool state with at least one idle processor, \<open>GetProcessor\<close> returns the
  idle processor with the highest index (the scan does not stop at the first idle one),
  marks it used and leaves the rest of the pool as it was.
\<close>

theorem GetProcessor_selects_last_idle:
  assumes "\<exists>p \<in> set (processors s). \<not> is_used p"
  shows "\<exists>s' h. GetProcessor s = Inr (s', h) \<and>
           h < length (processors s) \<and> \<not> is_used (processors s ! h) \<and>
           (\<forall>j. h < j \<and> j < length (processors s) \<longrightarrow> is_used (processors s ! j)) \<and>
           processors s' = (processors s)[h := used (processors s ! h)]"
proof -
  from scan_idle_Some [OF assms] obtain h where h: "scan (processors s) 0 None = Some h" ..
  from GetProcessor_reuse [OF h] obtain s' where
    "GetProcessor s = Inr (s', h)" "processors s' = (processors s)[h := used (processors s ! h)]"
    by auto
  with scan_last_idle [OF h] show ?thesis by blast
qed

text \<open>With processors 0 and 1 idle and 2 busy, processor 1 is returned, not processor 0.\<close>

theorem GetProcessor_selects_last_idle_witness:
  "(\<exists>p \<in> set [\<lparr>busy = False\<rparr>, \<lparr>busy = False\<rparr>, \<lparr>busy = True\<rparr>]. \<not> is_used p) \<and>
   (\<exists>s'. GetProcessor \<lparr>processors = [\<lparr>busy = False\<rparr>, \<lparr>busy = False\<rparr>, \<lparr>busy = True\<rparr>],
                           capacity = 3, trace = []\<rparr> = Inr (s', 1) \<and>
         processors s' = [\<lparr>busy = False\<rparr>, \<lparr>busy = True\<rparr>, \<lparr>busy = True\<rparr>])"
proof -
  let ?s = "\<lparr>processors = [\<lparr>busy = False\<rparr>, \<lparr>busy = False\<rparr>, \<lparr>busy = True\<rparr>],
             capacity = 3, trace = []\<rparr>"
  have idle: "\<exists>p \<in> set (processors ?s). \<not> is_used p" by (simp add: is_used_def)
  from GetProcessor_selects_last_idle [OF idle] obtain s' h where
    r: "GetProcessor ?s = Inr (s', h)" "h < length (processors ?s)"
       "\<not> is_used (processors ?s ! h)"
       "\<forall>j. h < j \<and> j < length (processors ?s) \<longrightarrow> is_used (processors ?s ! j)"
       "processors s' = (processors ?s)[h := used (processors ?s ! h)]"
    by blast
  from r(2) have "h = 0 \<or> h = 1 \<or> h = 2" by auto
  with r(3,4) have "h = 1" by (auto simp: is_used_def)
  with r(1,5) idle show ?thesis by (simp add: used_def)
qed

subsection \<open>Facts about GetProcessor and Handle used by several claims\<close>

lemma GetProcessor_events:
  assumes "GetProcessor s = Inr (s', h)"
  shows "trace s' = trace s @ Lock # map IsUsed [0..<length (processors s)] @
           (if h < length (processors s) then []
            else [Size, Reserve (max (length (processors s) * 2) (length (processors s) + 10)),
                  EmplaceBack]) @ [Used h, Unlock]"
proof (cases "scan (processors s) 0 None")
  case (Some k)
  from GetProcessor_reuse [OF Some] assms scan_last_idle(1) [OF Some] show ?thesis by auto
next
  case None
  show ?thesis
  proof (cases "length (processors s) < 2 ^ 30")
    case True
    from GetProcessor_grow [OF None True] assms show ?thesis by auto
  next
    case False
    then have "INT_MAX < int (length (processors s)) * 2" by (simp add: INT_MAX_def)
    with None assms show ?thesis by (simp add: GetProcessor_def Let_def)
  qed
qed

lemma GetProcessor_length:
  assumes "GetProcessor s = Inr (s', h)"
  shows "length (processors s') = length (processors s) \<or>
         length (processors s') = Suc (length (processors s))"
  using GetProcessor_cases [OF assms] by auto

lemma GetProcessor_handle:
  assumes "GetProcessor s = Inr (s', h)"
  shows "h < length (processors s')" "is_used (processors s' ! h)"
        "h < length (processors s) \<Longrightarrow> \<not> is_used (processors s ! h)"
        "\<And>i. i < length (processors s) \<Longrightarrow> i \<noteq> h \<Longrightarrow> processors s' ! i = processors s ! i"
  using GetProcessor_cases [OF assms]
  by (auto simp: nth_append dest: scan_last_idle)

lemma Handle_run:
  assumes "GetProcessor s = Inr (s1, h)"
    and "process_call h (serialized_request cql_call) = Some r"
  shows "\<exists>s'. Handle process_call (start, got_processor, process_done, response_done) s
                 (Some cql_call) = Inr s' \<and>
           processors s' = (processors s1)[h := unused (processors s1 ! h)] \<and>
           capacity s' = capacity s1 \<and>
           trace s' = trace s1 @
             [Increment time_to_get_cql_processor (got_processor - start),
              ProcessCall h (serialized_request cql_call),
              Serialize r, RespondSuccess, Unused h,
              Increment time_to_process_request (response_done - start),
              Increment time_to_queue_cql_response (response_done - process_done)]"
  using assms
  by (simp add: Handle_def SendResponse_def Let_def GetDeltaSince_def ToMicroseconds_def)

lemma Handle_Inr:
  assumes "Handle process_call now s inbound_call = Inr s'"
  shows "\<exists>cql_call s1 h r. inbound_call = Some cql_call \<and> GetProcessor s = Inr (s1, h) \<and>
           process_call h (serialized_request cql_call) = Some r \<and>
           processors s' = (processors s1)[h := unused (processors s1 ! h)] \<and>
           capacity s' = capacity s1"
  using assms
  by (auto simp: Handle_def SendResponse_def Let_def split: option.splits prod.splits sum.splits)

lemma Handle_keeps_pool:
  assumes "Handle process_call now s inbound_call = Inr s'"
  shows "processors s' = processors s \<or> processors s' = processors s @ [new_CQLProcessor]"
proof -
  from Handle_Inr [OF assms] obtain s1 h where
    g: "GetProcessor s = Inr (s1, h)" and
    p: "processors s' = (processors s1)[h := unused (processors s1 ! h)]"
    by blast
  from GetProcessor_cases [OF g] show ?thesis
  proof
    assume a: "scan (processors s) 0 None = Some h \<and>
          processors s1 = (processors s)[h := used (processors s ! h)] \<and>
          capacity s1 = capacity s"
    then have "h < length (processors s)" "\<not> is_used (processors s ! h)"
      using scan_last_idle by blast+
    with a p have "processors s' = processors s"
      by (simp add: unused_used_idle)
    then show ?thesis ..
  next
    assume b: "scan (processors s) 0 None = None \<and> h = length (processors s) \<and>
          processors s1 = processors s @ [used new_CQLProcessor] \<and>
          max (length (processors s) * 2) (length (processors s) + 10) \<le> capacity s1"
    with p have "processors s' = processors s @ [new_CQLProcessor]"
      by (simp add: unused_used_idle)
    then show ?thesis ..
  qed
qed

subsection \<open>GetProcessor always hands out a processor\<close>

text \<open>
  C2: \<open>GetProcessor\<close> has no wait and no retry: it returns from every pool state. When a
  processor is idle it returns an idle one and the pool keeps its processors; when none is
  idle it creates exactly one processor, appends it and returns it. The second part is
  stated for pools of fewer than \<open>2 ^ 30\<close> processors, where \<open>size * 2\<close> is an \<open>int\<close>.
\<close>

theorem GetProcessor_always_returns:
  "((\<exists>p \<in> set (processors s). \<not> is_used p) \<longrightarrow>
      (\<exists>s' h. GetProcessor s = Inr (s', h) \<and> h < length (processors s) \<and>
         \<not> is_used (processors s ! h) \<and>
         processors s' = (processors s)[h := used (processors s ! h)])) \<and>
   ((\<forall>p \<in> set (processors s). is_used p) \<and> length (processors s) < 2 ^ 30 \<longrightarrow>
      (\<exists>s'. GetProcessor s = Inr (s', length (processors s)) \<and>
         processors s' = processors s @ [used new_CQLProcessor]))"
proof (intro conjI impI)
  assume "\<exists>p \<in> set (processors s). \<not> is_used p"
  from scan_idle_Some [OF this] obtain h where h: "scan (processors s) 0 None = Some h" ..
  from GetProcessor_reuse [OF h] scan_last_idle(1,2) [OF h]
  show "\<exists>s' h. GetProcessor s = Inr (s', h) \<and> h < length (processors s) \<and>
         \<not> is_used (processors s ! h) \<and>
         processors s' = (processors s)[h := used (processors s ! h)]"
    by blast
next
  assume a: "(\<forall>p \<in> set (processors s). is_used p) \<and> length (processors s) < 2 ^ 30"
  then have "scan (processors s) 0 None = None" by (simp add: scan_None)
  from GetProcessor_grow [OF this] a
  show "\<exists>s'. GetProcessor s = Inr (s', length (processors s)) \<and>
         processors s' = processors s @ [used new_CQLProcessor]"
    by blast
qed

text \<open>
  A pool with processor 0 busy and processor 1 idle hands out processor 1; a pool whose only
  processor is busy grows to two processors and hands out the new one.
\<close>

theorem GetProcessor_always_returns_witness:
  "(\<exists>p \<in> set [\<lparr>busy = True\<rparr>, \<lparr>busy = False\<rparr>]. \<not> is_used p) \<and>
   (\<exists>s'. GetProcessor \<lparr>processors = [\<lparr>busy = True\<rparr>, \<lparr>busy = False\<rparr>], capacity = 2, trace = []\<rparr>
           = Inr (s', 1) \<and> processors s' = [\<lparr>busy = True\<rparr>, \<lparr>busy = True\<rparr>]) \<and>
   is_used \<lparr>busy = True\<rparr> \<and> length [\<lparr>busy = True\<rparr>] < (2::nat) ^ 30 \<and>
   (\<exists>s'. GetProcessor \<lparr>processors = [\<lparr>busy = True\<rparr>], capacity = 1, trace = []\<rparr>
           = Inr (s', 1) \<and> processors s' = [\<lparr>busy = True\<rparr>, \<lparr>busy = True\<rparr>])"
proof -
  let ?a = "\<lparr>processors = [\<lparr>busy = True\<rparr>, \<lparr>busy = False\<rparr>], capacity = 2, trace = []\<rparr>"
  let ?b = "\<lparr>processors = [\<lparr>busy = True\<rparr>], capacity = 1, trace = []\<rparr>"
  have idle: "\<exists>p \<in> set (processors ?a). \<not> is_used p" by (simp add: is_used_def)
  have full: "(\<forall>p \<in> set (processors ?b). is_used p) \<and> length (processors ?b) < 2 ^ 30"
    by (simp add: is_used_def)
  from GetProcessor_always_returns [of ?a] idle obtain s' h where
    r: "GetProcessor ?a = Inr (s', h)" "h < length (processors ?a)"
       "\<not> is_used (processors ?a ! h)"
       "processors s' = (processors ?a)[h := used (processors ?a ! h)]"
    by blast
  from r(2) have "h = 0 \<or> h = 1" by auto
  with r(3) have "h = 1" by (auto simp: is_used_def)
  with r(1,4) have first: "\<exists>s'. GetProcessor ?a = Inr (s', 1) \<and>
      processors s' = [\<lparr>busy = True\<rparr>, \<lparr>busy = True\<rparr>]"
    by (simp add: used_def)
  from GetProcessor_always_returns [of ?b] full obtain t' where
    "GetProcessor ?b = Inr (t', length (processors ?b))"
    "processors t' = processors ?b @ [used new_CQLProcessor]"
    by blast
  then have second: "\<exists>s'. GetProcessor ?b = Inr (s', 1) \<and>
      processors s' = [\<lparr>busy = True\<rparr>, \<lparr>busy = True\<rparr>]"
    by (simp add: used_def new_CQLProcessor_def)
  from idle full first second show ?thesis by (simp add: is_used_def)
qed

subsection \<open>Capacity after growth\<close>

text \<open>
  C7: whenever \<open>GetProcessor\<close> grows the pool, the capacity of \<open>processors_\<close> afterwards is
  at least \<open>max (2 * old_size) (old_size + 10)\<close>, where \<open>old_size\<close> is the number of
  processors before the call.
\<close>

theorem GetProcessor_growth_capacity:
  assumes "GetProcessor s = Inr (s', h)"
    and "length (processors s) < length (processors s')"
  shows "max (2 * length (processors s)) (length (processors s) + 10) \<le> capacity s'"
  using GetProcessor_cases [OF assms(1)] assms(2) by (auto simp: mult.commute)

text \<open>A full pool of one processor with capacity 1 grows to capacity 11.\<close>

theorem GetProcessor_growth_capacity_witness:
  "GetProcessor \<lparr>processors = [\<lparr>busy = True\<rparr>], capacity = 1, trace = []\<rparr> =
     Inr (\<lparr>processors = [\<lparr>busy = True\<rparr>, \<lparr>busy = True\<rparr>], capacity = 11,
           trace = [Lock, IsUsed 0, Size, Reserve 11, EmplaceBack, Used 1, Unlock]\<rparr>, 1) \<and>
   length [\<lparr>busy = True\<rparr>] < length [\<lparr>busy = True\<rparr>, \<lparr>busy = True\<rparr>] \<and>
   max (2 * length [\<lparr>busy = True\<rparr>]) (length [\<lparr>busy = True\<rparr>] + 10) \<le> (11::nat)"
proof -
  let ?s = "\<lparr>processors = [\<lparr>busy = True\<rparr>], capacity = 1, trace = []\<rparr>"
  let ?s' = "\<lparr>processors = [\<lparr>busy = True\<rparr>, \<lparr>busy = True\<rparr>], capacity = 11,
           trace = [Lock, IsUsed 0, Size, Reserve 11, EmplaceBack, Used 1, Unlock]\<rparr>"
  have g: "GetProcessor ?s = Inr (?s', 1)"
    by (simp add: GetProcessor_def reserve_def emit_def set_used_def emplace_back_def
        INT_MAX_def new_CQLProcessor_def used_def is_used_def Let_def)
  have l: "length (processors ?s) < length (processors ?s')" by simp
  from GetProcessor_growth_capacity [OF g l] g show ?thesis by simp
qed

subsection \<open>The events of one Handle\<close>

lemma responses_IsUsed [simp]: "responses (map IsUsed xs @ es) = responses es"
  by (induction xs) auto

lemma releases_IsUsed [simp]: "releases (map IsUsed xs @ es) = releases es"
  by (induction xs) auto

lemma samples_IsUsed [simp]: "samples m (map IsUsed xs @ es) = samples m es"
  by (induction xs) auto

lemma count_IsUsed [simp]: "count_list (map IsUsed xs) RespondSuccess = 0"
  by (induction xs) auto

lemma guarded_IsUsed [simp]: "guarded True (map IsUsed xs @ es) = guarded True es"
  by (induction xs) auto

lemma takeWhile_IsUsed [simp]:
  "takeWhile (\<lambda>e. e \<noteq> Unused h) (map IsUsed xs @ es) =
     map IsUsed xs @ takeWhile (\<lambda>e. e \<noteq> Unused h) es"
  by (induction xs) auto

lemma Handle_events:
  assumes "GetProcessor s = Inr (s1, h)"
    and "process_call h (serialized_request cql_call) = Some r"
  shows "\<exists>s'. Handle process_call (start, got_processor, process_done, response_done) s
                 (Some cql_call) = Inr s' \<and>
           processors s' = (processors s1)[h := unused (processors s1 ! h)] \<and>
           new_events s s' =
             Lock # map IsUsed [0..<length (processors s)] @
             (if h < length (processors s) then []
              else [Size, Reserve (max (length (processors s) * 2) (length (processors s) + 10)),
                    EmplaceBack]) @
             [Used h, Unlock,
              Increment time_to_get_cql_processor (got_processor - start),
              ProcessCall h (serialized_request cql_call),
              Serialize r, RespondSuccess, Unused h,
              Increment time_to_process_request (response_done - start),
              Increment time_to_queue_cql_response (response_done - process_done)]"
proof -
  from Handle_run [where process_call = process_call and start = start and got_processor = got_processor
      and process_done = process_done and response_done = response_done, OF assms]
  obtain s' where
    h: "Handle process_call (start, got_processor, process_done, response_done) s
          (Some cql_call) = Inr s'"
       "processors s' = (processors s1)[h := unused (processors s1 ! h)]"
       "trace s' = trace s1 @
             [Increment time_to_get_cql_processor (got_processor - start),
              ProcessCall h (serialized_request cql_call),
              Serialize r, RespondSuccess, Unused h,
              Increment time_to_process_request (response_done - start),
              Increment time_to_queue_cql_response (response_done - process_done)]"
    by blast
  from h(3) GetProcessor_events [OF assms(1)]
  have "new_events s s' =
             Lock # map IsUsed [0..<length (processors s)] @
             (if h < length (processors s) then []
              else [Size, Reserve (max (length (processors s) * 2) (length (processors s) + 10)),
                    EmplaceBack]) @
             [Used h, Unlock,
              Increment time_to_get_cql_processor (got_processor - start),
              ProcessCall h (serialized_request cql_call),
              Serialize r, RespondSuccess, Unused h,
              Increment time_to_process_request (response_done - start),
              Increment time_to_queue_cql_response (response_done - process_done)]"
    by (simp add: new_events_def)
  with h(1,2) show ?thesis by blast
qed

subsection \<open>One response and one acknowledgment per call\<close>

text \<open>
  C3: for every inbound call, once \<open>GetProcessor\<close> has returned a processor and
  \<open>ProcessCall\<close> has left a response (a result or an error payload), \<open>Handle\<close> serializes
  exactly that one response, calls \<open>RespondSuccess\<close> exactly once, after the
  serialization, and comes back without a fault; it returns nothing but the updated service.
\<close>

theorem Handle_one_response:
  assumes "GetProcessor s = Inr (s1, h)"
    and "process_call h (serialized_request cql_call) = Some r"
  shows "\<exists>s'. Handle process_call (start, got_processor, process_done, response_done) s
                 (Some cql_call) = Inr s' \<and>
           responses (new_events s s') = [r] \<and>
           count_list (new_events s s') RespondSuccess = 1 \<and>
           occurs_before (Serialize r) RespondSuccess (new_events s s')"
proof -
  from Handle_events [where process_call = process_call and start = start and got_processor = got_processor
      and process_done = process_done and response_done = response_done, OF assms]
  obtain s' where
    "Handle process_call (start, got_processor, process_done, response_done) s
          (Some cql_call) = Inr s'"
    and e: "new_events s s' =
             Lock # map IsUsed [0..<length (processors s)] @
             (if h < length (processors s) then []
              else [Size, Reserve (max (length (processors s) * 2) (length (processors s) + 10)),
                    EmplaceBack]) @
             [Used h, Unlock,
              Increment time_to_get_cql_processor (got_processor - start),
              ProcessCall h (serialized_request cql_call),
              Serialize r, RespondSuccess, Unused h,
              Increment time_to_process_request (response_done - start),
              Increment time_to_queue_cql_response (response_done - process_done)]"
    by blast
  moreover have "responses (new_events s s') = [r]"
    unfolding e by simp
  moreover have "count_list (new_events s s') RespondSuccess = 1"
    unfolding e by simp
  moreover have "occurs_before (Serialize r) RespondSuccess (new_events s s')"
    unfolding e occurs_before_def by (simp add: takeWhile_append)
  ultimately show ?thesis by blast
qed

text \<open>
  A call on an empty pool whose processing ends in an error payload: the error response is
  serialized and acknowledged once.
\<close>

theorem Handle_one_response_witness:
  "GetProcessor \<lparr>processors = [], capacity = 0, trace = []\<rparr> = Inr (\<lparr>processors = [\<lparr>busy = True\<rparr>], capacity = 10,
            trace = [Lock, Size, Reserve 10, EmplaceBack, Used 0, Unlock]\<rparr>, 0) \<and>
   (\<lambda>h request. Some (ErrorResponse request)) (0::nat) (serialized_request \<lparr>serialized_request = ''q''\<rparr>)
     = Some (ErrorResponse ''q'') \<and>
   (\<exists>s'. Handle (\<lambda>h request. Some (ErrorResponse request)) (0, 5, 10, 20)
            \<lparr>processors = [], capacity = 0, trace = []\<rparr> (Some \<lparr>serialized_request = ''q''\<rparr>) = Inr s' \<and>
         responses (new_events \<lparr>processors = [], capacity = 0, trace = []\<rparr> s') = [ErrorResponse ''q''] \<and>
         count_list (new_events \<lparr>processors = [], capacity = 0, trace = []\<rparr> s') RespondSuccess = 1 \<and>
         occurs_before (Serialize (ErrorResponse ''q'')) RespondSuccess
           (new_events \<lparr>processors = [], capacity = 0, trace = []\<rparr> s'))"
proof -
  let ?pc = "\<lambda>(h::nat) request. Some (ErrorResponse request)"
  let ?c = "\<lparr>serialized_request = ''q''\<rparr>"
  have g: "GetProcessor \<lparr>processors = [], capacity = 0, trace = []\<rparr> = Inr (\<lparr>processors = [\<lparr>busy = True\<rparr>], capacity = 10,
            trace = [Lock, Size, Reserve 10, EmplaceBack, Used 0, Unlock]\<rparr>, 0)"
    by (simp add: GetProcessor_def reserve_def emit_def set_used_def emplace_back_def
        INT_MAX_def new_CQLProcessor_def used_def is_used_def Let_def)
  have p: "?pc 0 (serialized_request ?c) = Some (ErrorResponse ''q'')" by simp
  from Handle_one_response [where process_call = ?pc and cql_call = ?c and start = 0
      and got_processor = 5 and process_done = 10 and response_done = 20, OF g p] g
  show ?thesis by simp
qed

subsection \<open>The processor is released after the response\<close>

text \<open>
  C4: a \<open>Handle\<close> invocation releases the processor it acquired exactly once, and does so
  after the response has been sent: the only \<open>unused()\<close> of the invocation is on the acquired
  processor and follows \<open>RespondSuccess\<close>. Afterwards that processor is idle, so a following
  \<open>GetProcessor\<close> finds an idle processor: it creates none and returns the released
  processor or an idle one further back in the pool.
\<close>

theorem Handle_releases_processor:
  assumes "GetProcessor s = Inr (s1, h)"
    and "process_call h (serialized_request cql_call) = Some r"
  shows "\<exists>s'. Handle process_call (start, got_processor, process_done, response_done) s
                 (Some cql_call) = Inr s' \<and>
           releases (new_events s s') = [h] \<and>
           occurs_before RespondSuccess (Unused h) (new_events s s') \<and>
           h < length (processors s') \<and> \<not> is_used (processors s' ! h) \<and>
           (\<exists>s'' h'. GetProcessor s' = Inr (s'', h') \<and> h \<le> h' \<and>
              length (processors s'') = length (processors s'))"
proof -
  from Handle_events [where process_call = process_call and start = start and got_processor = got_processor
      and process_done = process_done and response_done = response_done, OF assms]
  obtain s' where
    run: "Handle process_call (start, got_processor, process_done, response_done) s
          (Some cql_call) = Inr s'"
    and p: "processors s' = (processors s1)[h := unused (processors s1 ! h)]"
    and e: "new_events s s' =
             Lock # map IsUsed [0..<length (processors s)] @
             (if h < length (processors s) then []
              else [Size, Reserve (max (length (processors s) * 2) (length (processors s) + 10)),
                    EmplaceBack]) @
             [Used h, Unlock,
              Increment time_to_get_cql_processor (got_processor - start),
              ProcessCall h (serialized_request cql_call),
              Serialize r, RespondSuccess, Unused h,
              Increment time_to_process_request (response_done - start),
              Increment time_to_queue_cql_response (response_done - process_done)]"
    by blast
  have rel: "releases (new_events s s') = [h]"
    unfolding e by simp
  have ord: "occurs_before RespondSuccess (Unused h) (new_events s s')"
    unfolding e occurs_before_def by (simp add: takeWhile_append)
  from GetProcessor_handle(1) [OF assms(1)] p
  have lt: "h < length (processors s')" and idle: "\<not> is_used (processors s' ! h)"
    by simp_all
  then have "\<exists>q \<in> set (processors s'). \<not> is_used q"
    using nth_mem by blast
  from scan_idle_Some [OF this] obtain h' where
    h': "scan (processors s') 0 None = Some h'" ..
  from GetProcessor_reuse [OF h'] obtain s'' where
    nxt: "GetProcessor s' = Inr (s'', h')" "length (processors s'') = length (processors s')"
    by auto
  have "h \<le> h'"
  proof (rule ccontr)
    assume "\<not> h \<le> h'"
    then have "h' < h" by simp
    from scan_last_idle(3) [OF h' this lt] idle show False by simp
  qed
  with run rel ord lt idle nxt show ?thesis by blast
qed

text \<open>
  A call on a pool with one idle processor: processor 0 is acquired, released after the
  acknowledgment, and acquired again by the next \<open>GetProcessor\<close>.
\<close>

theorem Handle_releases_processor_witness:
  "GetProcessor \<lparr>processors = [\<lparr>busy = False\<rparr>], capacity = 1, trace = []\<rparr> =
     Inr (\<lparr>processors = [\<lparr>busy = True\<rparr>], capacity = 1,
           trace = [Lock, IsUsed 0, Used 0, Unlock]\<rparr>, 0) \<and>
   (\<lambda>h request. Some (ResultResponse request)) (0::nat)
       (serialized_request \<lparr>serialized_request = ''q''\<rparr>) = Some (ResultResponse ''q'') \<and>
   (\<exists>s'. Handle (\<lambda>h request. Some (ResultResponse request)) (0, 5, 10, 20)
            \<lparr>processors = [\<lparr>busy = False\<rparr>], capacity = 1, trace = []\<rparr>
            (Some \<lparr>serialized_request = ''q''\<rparr>) = Inr s' \<and>
         releases (new_events \<lparr>processors = [\<lparr>busy = False\<rparr>], capacity = 1, trace = []\<rparr> s')
           = [0] \<and>
         \<not> is_used (processors s' ! 0) \<and>
         (\<exists>s'' h'. GetProcessor s' = Inr (s'', h') \<and> 0 \<le> h' \<and>
            length (processors s'') = length (processors s')))"
proof -
  let ?pc = "\<lambda>(h::nat) request. Some (ResultResponse request)"
  let ?c = "\<lparr>serialized_request = ''q''\<rparr>"
  let ?s = "\<lparr>processors = [\<lparr>busy = False\<rparr>], capacity = 1, trace = []\<rparr>"
  have g: "GetProcessor ?s = Inr (\<lparr>processors = [\<lparr>busy = True\<rparr>], capacity = 1,
           trace = [Lock, IsUsed 0, Used 0, Unlock]\<rparr>, 0)"
    by (simp add: GetProcessor_def reserve_def emit_def set_used_def emplace_back_def
        INT_MAX_def new_CQLProcessor_def used_def is_used_def Let_def)
  have p: "?pc 0 (serialized_request ?c) = Some (ResultResponse ''q'')" by simp
  from Handle_releases_processor [where process_call = ?pc and cql_call = ?c and start = 0
      and got_processor = 5 and process_done = 10 and response_done = 20, OF g p] g
  show ?thesis by simp blast
qed

subsection \<open>The sample of time_to_process_request\<close>

text \<open>
  C6 says that the sample given to "time to process request" is the time from the acquire
  checkpoint (\<open>got_processor\<close>) to the response-sent checkpoint. With the clock reading
  0 at \<open>start\<close>, 5 at \<open>got_processor\<close>, 10 at \<open>process_done\<close> and 20 at
  \<open>response_done\<close>, the sample is 20: it is neither \<open>20 - 5\<close> nor \<open>10 - 5\<close>.
\<close>

theorem process_request_sample_counterexample:
  "Handle (\<lambda>h request. Some (ResultResponse request)) (0, 5, 10, 20)
     \<lparr>processors = [], capacity = 0, trace = []\<rparr> (Some \<lparr>serialized_request = ''q''\<rparr>) =
   Inr \<lparr>processors = [\<lparr>busy = False\<rparr>], capacity = 10,
        trace = [Lock, Size, Reserve 10, EmplaceBack, Used 0, Unlock,
                 Increment time_to_get_cql_processor 5, ProcessCall 0 ''q'',
                 Serialize (ResultResponse ''q''), RespondSuccess, Unused 0,
                 Increment time_to_process_request 20,
                 Increment time_to_queue_cql_response 10]\<rparr> \<and>
   samples time_to_process_request
       [Lock, Size, Reserve 10, EmplaceBack, Used 0, Unlock,
        Increment time_to_get_cql_processor 5, ProcessCall 0 ''q'',
        Serialize (ResultResponse ''q''), RespondSuccess, Unused 0,
        Increment time_to_process_request 20,
        Increment time_to_queue_cql_response 10] = [20] \<and>
   [20] \<noteq> [ToMicroseconds (GetDeltaSince 20 5)] \<and>
   [20] \<noteq> [ToMicroseconds (GetDeltaSince 10 5)]"
  by (simp add: Handle_def SendResponse_def GetProcessor_def reserve_def emit_def set_used_def
      set_unused_def emplace_back_def INT_MAX_def new_CQLProcessor_def used_def unused_def
      is_used_def GetDeltaSince_def ToMicroseconds_def Let_def)

text \<open>
  C6, amended: the one sample that a \<open>Handle\<close> invocation gives to "time to process
  request" is the time from the start-of-Handle timestamp \<open>start\<close>, taken before
  \<open>GetProcessor\<close>, to \<open>response_done\<close>, taken after the response is sent and the
  processor released.
\<close>

theorem Handle_time_to_process_request:
  assumes "GetProcessor s = Inr (s1, h)"
    and "process_call h (serialized_request cql_call) = Some r"
  shows "\<exists>s'. Handle process_call (start, got_processor, process_done, response_done) s
                 (Some cql_call) = Inr s' \<and>
           samples time_to_process_request (new_events s s') =
             [ToMicroseconds (GetDeltaSince response_done start)]"
proof -
  from Handle_events [where process_call = process_call and start = start and got_processor = got_processor
      and process_done = process_done and response_done = response_done, OF assms]
  obtain s' where
    run: "Handle process_call (start, got_processor, process_done, response_done) s
          (Some cql_call) = Inr s'"
    and e: "new_events s s' =
             Lock # map IsUsed [0..<length (processors s)] @
             (if h < length (processors s) then []
              else [Size, Reserve (max (length (processors s) * 2) (length (processors s) + 10)),
                    EmplaceBack]) @
             [Used h, Unlock,
              Increment time_to_get_cql_processor (got_processor - start),
              ProcessCall h (serialized_request cql_call),
              Serialize r, RespondSuccess, Unused h,
              Increment time_to_process_request (response_done - start),
              Increment time_to_queue_cql_response (response_done - process_done)]"
    by blast
  have "samples time_to_process_request (new_events s s') =
          [ToMicroseconds (GetDeltaSince response_done start)]"
    unfolding e by (simp add: ToMicroseconds_def GetDeltaSince_def)
  with run show ?thesis by blast
qed

theorem Handle_time_to_process_request_witness:
  "GetProcessor \<lparr>processors = [], capacity = 0, trace = []\<rparr> = Inr (\<lparr>processors = [\<lparr>busy = True\<rparr>], capacity = 10,
            trace = [Lock, Size, Reserve 10, EmplaceBack, Used 0, Unlock]\<rparr>, 0) \<and>
   (\<lambda>h request. Some (ResultResponse request)) (0::nat)
       (serialized_request \<lparr>serialized_request = ''q''\<rparr>) = Some (ResultResponse ''q'') \<and>
   (\<exists>s'. Handle (\<lambda>h request. Some (ResultResponse request)) (0, 5, 10, 20)
            \<lparr>processors = [], capacity = 0, trace = []\<rparr> (Some \<lparr>serialized_request = ''q''\<rparr>) = Inr s' \<and>
         samples time_to_process_request (new_events \<lparr>processors = [], capacity = 0, trace = []\<rparr> s') = [20])"
proof -
  let ?pc = "\<lambda>(h::nat) request. Some (ResultResponse request)"
  let ?c = "\<lparr>serialized_request = ''q''\<rparr>"
  have g: "GetProcessor \<lparr>processors = [], capacity = 0, trace = []\<rparr> = Inr (\<lparr>processors = [\<lparr>busy = True\<rparr>], capacity = 10,
            trace = [Lock, Size, Reserve 10, EmplaceBack, Used 0, Unlock]\<rparr>, 0)"
    by (simp add: GetProcessor_def reserve_def emit_def set_used_def emplace_back_def
        INT_MAX_def new_CQLProcessor_def used_def is_used_def Let_def)
  have p: "?pc 0 (serialized_request ?c) = Some (ResultResponse ''q'')" by simp
  from Handle_time_to_process_request [where process_call = ?pc and cql_call = ?c
      and start = 0 and got_processor = 5 and process_done = 10 and response_done = 20, OF g p] g
  show ?thesis by (simp add: ToMicroseconds_def GetDeltaSince_def)
qed

subsection \<open>Steps keep mutual exclusion\<close>

lemma step_exclusive:
  assumes "exclusive st" and "step process_call st x = Some st'"
  shows "exclusive st'"
proof (cases x)
  case Acquire
  with assms(2) obtain s' h where
    g: "GetProcessor (service st) = Inr (s', h)" and
    st': "st' = \<lparr>service = s', in_flight = h # in_flight st\<rparr>"
    by (auto split: sum.splits)
  have fresh: "h \<notin> set (in_flight st)"
  proof
    assume "h \<in> set (in_flight st)"
    with assms(1) have "h < length (processors (service st))"
      "is_used (processors (service st) ! h)"
      by (auto simp: exclusive_def)
    with GetProcessor_handle(3) [OF g] show False by simp
  qed
  have kept: "k < length (processors s') \<and> is_used (processors s' ! k)"
    if "k \<in> set (in_flight st)" for k
  proof -
    from that assms(1) have k: "k < length (processors (service st))"
      "is_used (processors (service st) ! k)"
      by (auto simp: exclusive_def)
    from that fresh have "k \<noteq> h" by auto
    with GetProcessor_handle(4) [OF g k(1)] k(2)
    have "is_used (processors s' ! k)" by simp
    moreover from GetProcessor_length [OF g] k(1) have "k < length (processors s')" by auto
    ultimately show ?thesis by simp
  qed
  from assms(1) fresh kept GetProcessor_handle(1,2) [OF g] show ?thesis
    by (auto simp: exclusive_def st')
next
  case (Release h)
  with assms(2) have h: "h \<in> set (in_flight st)" and
    st': "st' = \<lparr>service = set_unused h (service st), in_flight = remove1 h (in_flight st)\<rparr>"
    by (auto split: if_splits)
  from assms(1) have d: "distinct (in_flight st)" by (simp add: exclusive_def)
  have "k < length (processors (service st')) \<and> is_used (processors (service st') ! k)"
    if "k \<in> set (in_flight st')" for k
  proof -
    from that d have "k \<in> set (in_flight st)" "k \<noteq> h" by (auto simp: st')
    with assms(1) show ?thesis by (auto simp: exclusive_def st')
  qed
  with d show ?thesis by (auto simp: exclusive_def st')
next
  case (HandleCall inbound_call now)
  with assms(2) obtain s' where
    r: "Handle process_call now (service st) inbound_call = Inr s'" and
    st': "st' = \<lparr>service = s', in_flight = in_flight st\<rparr>"
    by (auto split: sum.splits)
  from Handle_keeps_pool [OF r] assms(1) show ?thesis
    by (auto simp: exclusive_def st' nth_append)
qed

lemma run_exclusive:
  "exclusive st \<Longrightarrow> run process_call st ops = Some st' \<Longrightarrow> exclusive st'"
proof (induction ops arbitrary: st)
  case Nil
  then show ?case by simp
next
  case (Cons x xs)
  from Cons.prems(2) obtain st1 where
    s: "step process_call st x = Some st1" and r: "run process_call st1 xs = Some st'"
    by (auto split: option.splits)
  from step_exclusive [OF Cons.prems(1) s] r show ?case by (rule Cons.IH)
qed

text \<open>
  C1: along every sequence of acquisitions, releases and whole \<open>Handle\<close> runs, no processor
  is held by two callers at once: the processors in flight are pairwise different, each is
  marked used, and a processor that \<open>GetProcessor\<close> would return next is none of them and
  is marked used on return.
\<close>

theorem mutual_exclusion:
  assumes "exclusive st" and "run process_call st ops = Some st'"
  shows "distinct (in_flight st') \<and>
         (\<forall>k \<in> set (in_flight st'). is_used (processors (service st') ! k)) \<and>
         (\<forall>s'' h. GetProcessor (service st') = Inr (s'', h) \<longrightarrow>
            h \<notin> set (in_flight st') \<and> is_used (processors s'' ! h))"
proof -
  from run_exclusive [OF assms] have e: "exclusive st'" .
  have "h \<notin> set (in_flight st') \<and> is_used (processors s'' ! h)"
    if g: "GetProcessor (service st') = Inr (s'', h)" for s'' h
  proof -
    have "h \<notin> set (in_flight st')"
    proof
      assume "h \<in> set (in_flight st')"
      with e have "h < length (processors (service st'))"
        "is_used (processors (service st') ! h)"
        by (auto simp: exclusive_def)
      with GetProcessor_handle(3) [OF g] show False by simp
    qed
    with GetProcessor_handle(2) [OF g] show ?thesis by simp
  qed
  with e show ?thesis by (auto simp: exclusive_def)
qed

text \<open>
  One caller holds processor 0 of a one-processor pool. A second caller acquires (the pool
  grows, it gets processor 1), the first releases processor 0, and a third caller acquires
  processor 0: the processors in flight are 0 and 1.
\<close>

theorem mutual_exclusion_witness:
  "exclusive \<lparr>service = \<lparr>processors = [\<lparr>busy = True\<rparr>], capacity = 1, trace = []\<rparr>,
       in_flight = [0]\<rparr> \<and>
   (\<exists>st'. run (\<lambda>h request. Some (ResultResponse request)) \<lparr>service = \<lparr>processors = [\<lparr>busy = True\<rparr>], capacity = 1, trace = []\<rparr>,
       in_flight = [0]\<rparr>
            [Acquire, Release 0, Acquire] = Some st' \<and>
      in_flight st' = [0, 1] \<and> distinct (in_flight st') \<and>
      is_used (processors (service st') ! 0) \<and> is_used (processors (service st') ! 1))"
proof -
  let ?pc = "\<lambda>(h::nat) request. Some (ResultResponse request)"
  let ?st = "\<lparr>service = \<lparr>processors = [\<lparr>busy = True\<rparr>], capacity = 1, trace = []\<rparr>,
       in_flight = [0]\<rparr>"
  have e: "exclusive ?st" by (simp add: exclusive_def is_used_def)
  have "\<exists>st'. run ?pc ?st [Acquire, Release 0, Acquire] = Some st' \<and> in_flight st' = [0, 1]"
    by (simp add: Handle_def SendResponse_def GetProcessor_def reserve_def emit_def set_used_def
        set_unused_def emplace_back_def INT_MAX_def new_CQLProcessor_def used_def unused_def
        is_used_def GetDeltaSince_def ToMicroseconds_def Let_def)
  then obtain st' where
    r: "run ?pc ?st [Acquire, Release 0, Acquire] = Some st'" and i: "in_flight st' = [0, 1]"
    by blast
  from mutual_exclusion [OF e r] i e r show ?thesis by auto
qed

subsection \<open>The pool never shrinks\<close>

lemma step_length:
  assumes "step process_call st x = Some st'"
  shows "length (processors (service st)) \<le> length (processors (service st'))"
proof (cases x)
  case Acquire
  with assms obtain s' h where
    "GetProcessor (service st) = Inr (s', h)" "service st' = s'"
    by (auto split: sum.splits)
  with GetProcessor_length [of "service st" s' h] show ?thesis by auto
next
  case (Release h)
  with assms show ?thesis by (auto split: if_splits)
next
  case (HandleCall inbound_call now)
  with assms obtain s' where
    "Handle process_call now (service st) inbound_call = Inr s'" "service st' = s'"
    by (auto split: sum.splits)
  with Handle_keeps_pool [of process_call now "service st" inbound_call s'] show ?thesis
    by auto
qed

lemma run_length:
  "run process_call st ops = Some st' \<Longrightarrow>
     length (processors (service st)) \<le> length (processors (service st'))"
proof (induction ops arbitrary: st)
  case Nil
  then show ?case by simp
next
  case (Cons x xs)
  from Cons.prems obtain st1 where
    s: "step process_call st x = Some st1" and r: "run process_call st1 xs = Some st'"
    by (auto split: option.splits)
  from step_length [OF s] Cons.IH [OF r] show ?case by simp
qed

lemma busy_count_used:
  "h < length ps \<Longrightarrow> \<not> is_used (ps ! h) \<Longrightarrow>
     busy_count (ps[h := used (ps ! h)]) = Suc (busy_count ps)"
proof (induction ps arbitrary: h)
  case Nil
  then show ?case by simp
next
  case (Cons p ps)
  show ?case
  proof (cases h)
    case 0
    with Cons.prems show ?thesis by (simp add: busy_count_def)
  next
    case (Suc k)
    with Cons.prems have "k < length ps" "\<not> is_used (ps ! k)" by simp_all
    from Cons.IH [OF this] Suc show ?thesis by (simp add: busy_count_def)
  qed
qed

lemma GetProcessor_busy_count:
  assumes "GetProcessor s = Inr (s', h)"
  shows "busy_count (processors s') = Suc (busy_count (processors s))"
  using GetProcessor_cases [OF assms]
proof
  assume a: "scan (processors s) 0 None = Some h \<and>
          processors s' = (processors s)[h := used (processors s ! h)] \<and>
          capacity s' = capacity s"
  then have "h < length (processors s)" "\<not> is_used (processors s ! h)"
    using scan_last_idle by blast+
  from busy_count_used [OF this] a show ?thesis by simp
next
  assume "scan (processors s) 0 None = None \<and> h = length (processors s) \<and>
          processors s' = processors s @ [used new_CQLProcessor] \<and>
          max (length (processors s) * 2) (length (processors s) + 10) \<le> capacity s'"
  then show ?thesis by (simp add: busy_count_def)
qed

lemma run_acquires_busy_count:
  "run process_call st (replicate M Acquire) = Some st' \<Longrightarrow>
     busy_count (processors (service st')) = M + busy_count (processors (service st))"
proof (induction M arbitrary: st)
  case 0
  then show ?case by simp
next
  case (Suc M)
  from Suc.prems obtain s1 h where
    g: "GetProcessor (service st) = Inr (s1, h)" and
    r: "run process_call \<lparr>service = s1, in_flight = h # in_flight st\<rparr> (replicate M Acquire)
          = Some st'"
    by (auto split: sum.splits)
  from Suc.IH [OF r] GetProcessor_busy_count [OF g] show ?case by simp
qed

text \<open>
  C8: the number of processors never goes down. \<open>GetProcessor\<close> leaves it as it is or
  raises it by exactly one; no step of a sequence of acquisitions, releases and \<open>Handle\<close>
  runs lowers it; and after \<open>M\<close> acquisitions with no release in between the pool holds at
  least \<open>M\<close> processors.
\<close>

theorem pool_never_shrinks:
  "(GetProcessor s = Inr (s', h) \<longrightarrow>
      length (processors s') = length (processors s) \<or>
      length (processors s') = Suc (length (processors s))) \<and>
   (run process_call st ops = Some st' \<longrightarrow>
      length (processors (service st)) \<le> length (processors (service st'))) \<and>
   (run process_call st2 (replicate M Acquire) = Some st2' \<longrightarrow>
      M \<le> length (processors (service st2')))"
proof (intro conjI impI)
  assume "GetProcessor s = Inr (s', h)"
  then show "length (processors s') = length (processors s) \<or>
      length (processors s') = Suc (length (processors s))"
    by (rule GetProcessor_length)
next
  assume "run process_call st ops = Some st'"
  then show "length (processors (service st)) \<le> length (processors (service st'))"
    by (rule run_length)
next
  assume "run process_call st2 (replicate M Acquire) = Some st2'"
  from run_acquires_busy_count [OF this]
  have "M \<le> busy_count (processors (service st2'))" by simp
  also have "\<dots> \<le> length (processors (service st2'))" by (simp add: busy_count_def)
  finally show "M \<le> length (processors (service st2'))" .
qed

text \<open>
  From a pool of one busy processor held by one caller: an acquisition grows the pool to
  two; acquire, release, \<open>Handle\<close> leaves it at two; three acquisitions with no release
  leave four processors.
\<close>

theorem pool_never_shrinks_witness:
  "(\<exists>s'. GetProcessor \<lparr>processors = [\<lparr>busy = True\<rparr>], capacity = 1, trace = []\<rparr> = Inr (s', 1) \<and>
      length (processors s') = 2) \<and>
   (\<exists>st'. run (\<lambda>h request. Some (ResultResponse request)) \<lparr>service = \<lparr>processors = [\<lparr>busy = True\<rparr>], capacity = 1, trace = []\<rparr>,
       in_flight = [0]\<rparr>
            [Acquire, Release 0, HandleCall (Some \<lparr>serialized_request = ''q''\<rparr>) (0, 5, 10, 20)]
            = Some st' \<and>
      length (processors (service st')) = 2) \<and>
   (\<exists>st'. run (\<lambda>h request. Some (ResultResponse request)) \<lparr>service = \<lparr>processors = [\<lparr>busy = True\<rparr>], capacity = 1, trace = []\<rparr>,
       in_flight = [0]\<rparr>
            (replicate 3 Acquire) = Some st' \<and>
      3 \<le> length (processors (service st')) \<and> length (processors (service st')) = 4)"
proof -
  let ?pc = "\<lambda>(h::nat) request. Some (ResultResponse request)"
  let ?s = "\<lparr>processors = [\<lparr>busy = True\<rparr>], capacity = 1, trace = []\<rparr>"
  let ?st = "\<lparr>service = \<lparr>processors = [\<lparr>busy = True\<rparr>], capacity = 1, trace = []\<rparr>,
       in_flight = [0]\<rparr>"
  let ?ops = "[Acquire, Release 0, HandleCall (Some \<lparr>serialized_request = ''q''\<rparr>) (0, 5, 10, 20)]"
  have "\<exists>s'. GetProcessor ?s = Inr (s', 1) \<and> length (processors s') = 2"
    by (simp add: GetProcessor_def reserve_def emit_def set_used_def emplace_back_def
        INT_MAX_def new_CQLProcessor_def used_def is_used_def Let_def)
  then obtain s' where g: "GetProcessor ?s = Inr (s', 1)" and gl: "length (processors s') = 2"
    by blast
  have "\<exists>st'. run ?pc ?st ?ops = Some st' \<and> length (processors (service st')) = 2"
    by (simp add: Handle_def SendResponse_def GetProcessor_def reserve_def emit_def set_used_def
        set_unused_def emplace_back_def INT_MAX_def new_CQLProcessor_def used_def unused_def
        is_used_def GetDeltaSince_def ToMicroseconds_def Let_def)
  then obtain st' where r: "run ?pc ?st ?ops = Some st'"
    and rl: "length (processors (service st')) = 2"
    by blast
  have "\<exists>st'. run ?pc ?st (replicate 3 Acquire) = Some st' \<and>
          length (processors (service st')) = 4"
    by (simp add: numeral_3_eq_3 GetProcessor_def reserve_def emit_def set_used_def emplace_back_def
        INT_MAX_def new_CQLProcessor_def used_def is_used_def Let_def)
  then obtain st2' where a: "run ?pc ?st (replicate 3 Acquire) = Some st2'"
    and al: "length (processors (service st2')) = 4"
    by blast
  from pool_never_shrinks [of ?s s' 1 ?pc ?st ?ops st' ?st 3 st2'] g r a
  have "length (processors ?s) \<le> length (processors s') \<and>
        length (processors (service ?st)) \<le> length (processors (service st')) \<and>
        3 \<le> length (processors (service st2'))"
    by auto
  with g gl r rl a al show ?thesis by blast
qed

subsection \<open>Which accesses happen under the mutex\<close>

text \<open>
  C9 says that every read and write of the shared pool state happens while
  \<open>process_mutex_\<close> is held, the clearing of the flag on release in particular. In
  \<open>Handle\<close> the \<open>lock_guard\<close> of \<open>GetProcessor\<close> is gone when \<open>GetProcessor\<close> returns,
  and \<open>processor->unused()\<close> follows with no lock taken: in the trace of a call on a pool
  with one idle processor, \<open>Unused 0\<close> comes after \<open>Unlock\<close>. (The flag's setters cannot
  take \<open>process_mutex_\<close> themselves: it is a plain \<open>std::mutex\<close> and \<open>GetProcessor\<close>
  calls \<open>used()\<close> while holding it.)
\<close>

theorem release_outside_mutex_counterexample:
  "Handle (\<lambda>h request. Some (ResultResponse request)) (0, 5, 10, 20)
     \<lparr>processors = [\<lparr>busy = False\<rparr>], capacity = 1, trace = []\<rparr>
     (Some \<lparr>serialized_request = ''q''\<rparr>) =
   Inr \<lparr>processors = [\<lparr>busy = False\<rparr>], capacity = 1,
        trace = [Lock, IsUsed 0, Used 0, Unlock,
                 Increment time_to_get_cql_processor 5, ProcessCall 0 ''q'',
                 Serialize (ResultResponse ''q''), RespondSuccess, Unused 0,
                 Increment time_to_process_request 20,
                 Increment time_to_queue_cql_response 10]\<rparr> \<and>
   \<not> guarded False
       [Lock, IsUsed 0, Used 0, Unlock,
        Increment time_to_get_cql_processor 5, ProcessCall 0 ''q'',
        Serialize (ResultResponse ''q''), RespondSuccess, Unused 0,
        Increment time_to_process_request 20,
        Increment time_to_queue_cql_response 10]"
  by (simp add: Handle_def SendResponse_def GetProcessor_def reserve_def emit_def set_used_def
      set_unused_def emplace_back_def INT_MAX_def new_CQLProcessor_def used_def unused_def
      is_used_def GetDeltaSince_def ToMicroseconds_def Let_def)

text \<open>
  C9, amended: every read and write of the shared pool state that \<open>GetProcessor\<close> makes
  (the reads of the flags in the scan, \<open>size()\<close>, \<open>reserve\<close>, \<open>emplace_back\<close>, and the
  setting of the selected processor's flag) happens while \<open>process_mutex_\<close> is held. The
  scan reads the flag of every processor of the pool, and the flag of the returned
  processor is set, inside that section.
\<close>

theorem GetProcessor_accesses_guarded:
  assumes "GetProcessor s = Inr (s', h)"
  shows "guarded False (new_events s s') \<and>
         (\<forall>i < length (processors s). IsUsed i \<in> set (new_events s s')) \<and>
         Used h \<in> set (new_events s s')"
proof -
  from GetProcessor_events [OF assms]
  have e: "new_events s s' = Lock # map IsUsed [0..<length (processors s)] @
           (if h < length (processors s) then []
            else [Size, Reserve (max (length (processors s) * 2) (length (processors s) + 10)),
                  EmplaceBack]) @ [Used h, Unlock]"
    by (simp add: new_events_def)
  have "guarded False (new_events s s')"
    unfolding e by simp
  moreover have "\<forall>i < length (processors s). IsUsed i \<in> set (new_events s s')"
    unfolding e by simp
  moreover have "Used h \<in> set (new_events s s')"
    unfolding e by simp
  ultimately show ?thesis by blast
qed

text \<open>A full pool of one processor: the scan, the growth and the flag are all guarded.\<close>

theorem GetProcessor_accesses_guarded_witness:
  "GetProcessor \<lparr>processors = [\<lparr>busy = True\<rparr>], capacity = 1, trace = []\<rparr> =
     Inr (\<lparr>processors = [\<lparr>busy = True\<rparr>, \<lparr>busy = True\<rparr>], capacity = 11,
           trace = [Lock, IsUsed 0, Size, Reserve 11, EmplaceBack, Used 1, Unlock]\<rparr>, 1) \<and>
   guarded False [Lock, IsUsed 0, Size, Reserve 11, EmplaceBack, Used 1, Unlock] \<and>
   IsUsed 0 \<in> set [Lock, IsUsed 0, Size, Reserve 11, EmplaceBack, Used 1, Unlock] \<and>
   Used 1 \<in> set [Lock, IsUsed 0, Size, Reserve 11, EmplaceBack, Used 1, Unlock]"
proof -
  let ?s = "\<lparr>processors = [\<lparr>busy = True\<rparr>], capacity = 1, trace = []\<rparr>"
  let ?s' = "\<lparr>processors = [\<lparr>busy = True\<rparr>, \<lparr>busy = True\<rparr>], capacity = 11,
           trace = [Lock, IsUsed 0, Size, Reserve 11, EmplaceBack, Used 1, Unlock]\<rparr>"
  have g: "GetProcessor ?s = Inr (?s', 1)"
    by (simp add: GetProcessor_def reserve_def emit_def set_used_def emplace_back_def
        INT_MAX_def new_CQLProcessor_def used_def is_used_def Let_def)
  from GetProcessor_accesses_guarded [OF g] g show ?thesis
    by (simp add: new_events_def)
qed

end
